theory Spec2Isabelle
  imports Main "HOL-Library.Sublist" "HOL-Library.Char_ord" "HOL-Library.Monad_Syntax"
begin

section \<open>The page renderer of build\_html.py\<close>

text \<open>
  The script src/python/build\_html.py renders one page per (template, language) pair.
  The body of its inner loop is a pipeline on one string, \<open>page\<close>:
  \<^verbatim>\<open>
    page = base.replace('{Content}', page_file.read())
    page = page.replace(f'{{.name}}', filename)
    for key, value in lang.items():
        page = page.replace(f'{{{key}}}', value)
    remaining_keys = re.search(r'{([a-zA-Z0-9-.]+)}', page)
    if remaining_keys:
        raise KeyError(f"no jana cabe '{remaining_keys.group(1)}'!")
    page = re.sub(fr'{{If"{filename}"([^}}]*)}}', '\\1', page)
    page = re.sub(fr'{{If"[^"]*"[^}}]*}}', '', page)
  \<close>
  Reading and writing the files is left out: the contents of base.html, of the page
  template and of the language file are the arguments \<open>base\<close>, \<open>content\<close> and
  \<open>lang\<close>. A Python \<open>str\<close> is modelled as a \<open>string\<close>; the dictionary
  \<open>lang\<close> is the list of its items in iteration order (the order of the JSON file),
  since the loop over \<open>lang.items()\<close> visits them in that order.
\<close>

subsection \<open>Python's str.replace and str.join\<close>

text \<open>
  \<open>s.replace(old, new)\<close> scans \<open>s\<close> from the left, replaces each occurrence of
  \<open>old\<close> it meets and goes on behind the occurrence: occurrences do not overlap, and
  the text put in is not scanned again. With an empty \<open>old\<close>, Python puts \<open>new\<close>
  before every character and at the end.
\<close>

fun replace :: "string \<Rightarrow> string \<Rightarrow> string \<Rightarrow> string" where
  "replace old new [] = (if old = [] then new else [])"
| "replace old new (c # cs) =
     (if old = [] then new @ c # replace old new cs
      else if prefix old (c # cs) then new @ replace old new (drop (length old) (c # cs))
      else c # replace old new cs)"

text \<open>\<open>sep.join(parts)\<close>, used to say what a replacement does.\<close>

fun join :: "string \<Rightarrow> string list \<Rightarrow> string" where
  "join sep [] = []"
| "join sep [s] = s"
| "join sep (s # t # ts) = s @ sep @ join sep (t # ts)"

subsection \<open>The three substitutions\<close>

definition content_injection :: "string \<Rightarrow> string \<Rightarrow> string" where
  "content_injection base content = replace ''{Content}'' content base"

definition name_substitution :: "string \<Rightarrow> string \<Rightarrow> string" where
  "name_substitution filename page = replace ''{.name}'' filename page"

text \<open>The f-string \<^verbatim>\<open>f'{{{key}}}'\<close>: the key between braces.\<close>

definition token :: "string \<Rightarrow> string" where
  "token key = CHR ''{'' # key @ ''}''"

fun key_substitution :: "(string \<times> string) list \<Rightarrow> string \<Rightarrow> string" where
  "key_substitution [] page = page"
| "key_substitution ((key, val) # lang) page =
     key_substitution lang (replace (token key) val page)"

subsection \<open>The search for a remaining key\<close>

text \<open>
  The character class \<^verbatim>\<open>[a-zA-Z0-9-.]\<close>: three ranges, then the two literals
  \<open>-\<close> and \<open>.\<close> (a hyphen that follows a range is a literal).
\<close>

definition in_range :: "char \<Rightarrow> char \<Rightarrow> char \<Rightarrow> bool" where
  "in_range lo hi c \<longleftrightarrow> lo \<le> c \<and> c \<le> hi"

definition key_char :: "char \<Rightarrow> bool" where
  "key_char c \<longleftrightarrow>
     in_range CHR ''a'' CHR ''z'' c \<or> in_range CHR ''A'' CHR ''Z'' c \<or>
     in_range CHR ''0'' CHR ''9'' c \<or> c = CHR ''-'' \<or> c = CHR ''.''"

text \<open>
  A literal piece of a pattern: the text behind it, when the text starts with it.
\<close>

definition lit :: "string \<Rightarrow> string \<Rightarrow> string option" where
  "lit w s = (if prefix w s then Some (drop (length w) s) else None)"

text \<open>
  The pattern \<^verbatim>\<open>{([a-zA-Z0-9-.]+)}\<close> tried at the start of \<open>s\<close>; the result is
  group 1. The greedy \<open>+\<close> takes the longest run of class characters; a shorter run is
  followed by a class character, never by the closing brace, so backtracking into the
  run cannot find another match.
\<close>

definition match_key :: "string \<Rightarrow> string option" where
  "match_key s =
     lit ''{'' s \<bind> (\<lambda>r.
       if takeWhile key_char r = [] then None
       else lit ''}'' (dropWhile key_char r) \<bind> (\<lambda>_. Some (takeWhile key_char r)))"

text \<open>\<open>re.search\<close>: the match at the leftmost position that has one.\<close>

fun search_key :: "string \<Rightarrow> string option" where
  "search_key [] = None"
| "search_key (c # cs) =
     (case match_key (c # cs) of Some k \<Rightarrow> Some k | None \<Rightarrow> search_key cs)"

subsection \<open>The two passes over the conditional tags\<close>

text \<open>
  The first pattern is built from the file name, which is put into the pattern as it is
  (there is no \<open>re.escape\<close>). So a character of the name that the pattern language
  gives a meaning is not a literal. The model covers the names whose characters are
  literals or the dot, which stands for any character but a newline; a name with another
  special character has no pattern here.
\<close>

datatype name_atom = Lit char | AnyChar

definition special_chars :: "char list" where
  "special_chars =
     [CHR ''^'', CHR ''$'', CHR ''*'', CHR ''+'', CHR ''?'', CHR ''{'', CHR ''}'',
      CHR ''['', CHR '']'', CHR 0x5C, CHR ''|'', CHR ''('', CHR '')'']"

definition compile_name :: "string \<Rightarrow> name_atom list option" where
  "compile_name filename =
     (if list_ex (\<lambda>c. c \<in> set special_chars) filename then None
      else Some (map (\<lambda>c. if c = CHR ''.'' then AnyChar else Lit c) filename))"

fun match_name :: "name_atom list \<Rightarrow> string \<Rightarrow> string option" where
  "match_name [] s = Some s"
| "match_name (a # as) [] = None"
| "match_name (Lit c # as) (d # ds) = (if c = d then match_name as ds else None)"
| "match_name (AnyChar # as) (d # ds) = (if d = CHR 0x0A then None else match_name as ds)"

definition dquote :: char where
  "dquote = CHR 0x22"

definition if_open :: string where
  "if_open = ''{If'' @ [dquote]"

text \<open>
  The pattern \<^verbatim>\<open>{If"NAME"([^}]*)}\<close> tried at the start of \<open>s\<close>: group 1 and the
  text behind the match. The greedy \<^verbatim>\<open>[^}]*\<close> stops before the first closing brace,
  and no shorter run is followed by one.
\<close>

definition match_keep :: "name_atom list \<Rightarrow> string \<Rightarrow> (string \<times> string) option" where
  "match_keep p s =
     lit if_open s \<bind> match_name p \<bind> lit [dquote] \<bind> (\<lambda>r.
       lit ''}'' (dropWhile (\<lambda>c. c \<noteq> CHR ''}'') r) \<bind> (\<lambda>after.
         Some (takeWhile (\<lambda>c. c \<noteq> CHR ''}'') r, after)))"

text \<open>
  The pattern \<^verbatim>\<open>{If"[^"]*"[^}]*}\<close> tried at the start of \<open>s\<close>: the text behind the
  match. The tag name runs to the first double quote, the body to the first closing
  brace behind it.
\<close>

definition match_strip :: "string \<Rightarrow> string option" where
  "match_strip s =
     lit if_open s \<bind> (\<lambda>r. lit [dquote] (dropWhile (\<lambda>c. c \<noteq> dquote) r)) \<bind> (\<lambda>r.
       lit ''}'' (dropWhile (\<lambda>c. c \<noteq> CHR ''}'') r))"

lemma lit_length: "lit w s = Some r \<Longrightarrow> length r \<le> length s"
  by (auto simp: lit_def split: if_splits)

lemma lit_Cons_length: "lit (a # w) s = Some r \<Longrightarrow> length r < length s"
  by (cases s) (auto simp: lit_def split: if_splits)

lemma match_name_length: "match_name p s = Some r \<Longrightarrow> length r \<le> length s"
  by (induction p s rule: match_name.induct) (auto split: if_splits)

lemma dropWhile_length: "length (dropWhile P r) \<le> length r"
  by (induction r) auto

lemma match_keep_shorter:
  assumes "match_keep p s = Some (body, after)"
  shows "length after < length s"
proof -
  from assms obtain r1 r2 r3 where
    r1: "lit if_open s = Some r1" and r2: "match_name p r1 = Some r2" and
    r3: "lit [dquote] r2 = Some r3" and
    r4: "lit ''}'' (dropWhile (\<lambda>c. c \<noteq> CHR ''}'') r3) = Some after"
    by (auto simp: match_keep_def bind_eq_Some_conv)
  have "length after \<le> length r3"
    using lit_length [OF r4] dropWhile_length [of "\<lambda>c. c \<noteq> CHR ''}''" r3] by simp
  moreover have "length r3 < length r2" using lit_Cons_length [OF r3] .
  moreover have "length r2 \<le> length r1" using match_name_length [OF r2] .
  moreover have "length r1 \<le> length s" using lit_length [OF r1] .
  ultimately show ?thesis by simp
qed

lemma match_strip_shorter:
  assumes "match_strip s = Some after"
  shows "length after < length s"
proof -
  from assms obtain r1 r2 where
    r1: "lit if_open s = Some r1" and
    r2: "lit [dquote] (dropWhile (\<lambda>c. c \<noteq> dquote) r1) = Some r2" and
    r3: "lit ''}'' (dropWhile (\<lambda>c. c \<noteq> CHR ''}'') r2) = Some after"
    by (auto simp: match_strip_def bind_eq_Some_conv)
  have "length after \<le> length r2"
    using lit_length [OF r3] dropWhile_length [of "\<lambda>c. c \<noteq> CHR ''}''" r2] by simp
  moreover have "length r2 < length r1"
    using lit_Cons_length [OF r2] dropWhile_length [of "\<lambda>c. c \<noteq> dquote" r1] by simp
  moreover have "length r1 \<le> length s" using lit_length [OF r1] .
  ultimately show ?thesis by simp
qed

text \<open>
  \<open>re.sub\<close> with the first pattern and the replacement \<^verbatim>\<open>\1\<close>: the matches are
  found from left to right, each search starting behind the match before; a match is
  replaced by its group 1, and the text between the matches is copied.
\<close>

function keep_pass :: "name_atom list \<Rightarrow> string \<Rightarrow> string" where
  "keep_pass p [] = []"
| "keep_pass p (c # cs) =
     (case match_keep p (c # cs) of
        Some (body, after) \<Rightarrow> body @ keep_pass p after
      | None \<Rightarrow> c # keep_pass p cs)"
  by pat_completeness auto
termination
  by (relation "measure (\<lambda>(p, s). length s)") (auto dest: match_keep_shorter)

text \<open>\<open>re.sub\<close> with the second pattern and the empty replacement.\<close>

function strip_pass :: "string \<Rightarrow> string" where
  "strip_pass [] = []"
| "strip_pass (c # cs) =
     (case match_strip (c # cs) of
        Some after \<Rightarrow> strip_pass after
      | None \<Rightarrow> c # strip_pass cs)"
  by pat_completeness auto
termination
  by (relation "measure length") (auto dest: match_strip_shorter)

definition conditional_resolution :: "string \<Rightarrow> string \<Rightarrow> string option" where
  "conditional_resolution filename page =
     map_option (\<lambda>p. strip_pass (keep_pass p page)) (compile_name filename)"

subsection \<open>The pipeline\<close>

datatype error = KeyError string | PatternNotModelled

text \<open>The message of the \<open>KeyError\<close>: \<^verbatim>\<open>f"no jana cabe '{key}'!"\<close>.\<close>

definition no_jana_cabe :: "string \<Rightarrow> string" where
  "no_jana_cabe k = ''no jana cabe '' @ [CHR 0x27] @ k @ [CHR 0x27] @ ''!''"

definition substituted :: "string \<Rightarrow> string \<Rightarrow> string \<Rightarrow> (string \<times> string) list \<Rightarrow> string" where
  "substituted base content filename lang =
     key_substitution lang (name_substitution filename (content_injection base content))"

definition completeness_check :: "string \<Rightarrow> error + string" where
  "completeness_check page =
     (case search_key page of
        Some k \<Rightarrow> Inl (KeyError (no_jana_cabe k))
      | None \<Rightarrow> Inr page)"

definition render :: "string \<Rightarrow> string \<Rightarrow> string \<Rightarrow> (string \<times> string) list \<Rightarrow> error + string" where
  "render base content filename lang =
     (case completeness_check (substituted base content filename lang) of
        Inl e \<Rightarrow> Inl e
      | Inr page \<Rightarrow>
          (case conditional_resolution filename page of
             None \<Rightarrow> Inl PatternNotModelled
           | Some page' \<Rightarrow> Inr page'))"

subsection \<open>Vocabulary of the properties\<close>

text \<open>
  A token of the search pattern at the start of a text: an opening brace, the key (a
  nonempty word of class characters) and a closing brace.
\<close>

definition token_at :: "string \<Rightarrow> string \<Rightarrow> bool" where
  "token_at k s \<longleftrightarrow> k \<noteq> [] \<and> list_all key_char k \<and> prefix (token k) s"

text \<open>
  A text seen as a sequence of plain runs and conditional tags. A tag is written
  \<^verbatim>\<open>{If"name"body}\<close>. In a well-formed text every opening brace opens a tag: a plain
  run, a tag name and a body have none; a name has no double quote and a body no
  closing brace, so that the name and the body of a tag end where they are meant to.
\<close>

datatype piece = Plain string | Tag string string

fun flatten_piece :: "piece \<Rightarrow> string" where
  "flatten_piece (Plain s) = s"
| "flatten_piece (Tag n b) = if_open @ n @ dquote # b @ ''}''"

definition flatten :: "piece list \<Rightarrow> string" where
  "flatten ps = concat (map flatten_piece ps)"

fun well_formed :: "piece \<Rightarrow> bool" where
  "well_formed (Plain s) \<longleftrightarrow> CHR ''{'' \<notin> set s"
| "well_formed (Tag n b) \<longleftrightarrow>
     dquote \<notin> set n \<and> CHR ''{'' \<notin> set n \<and> CHR ''{'' \<notin> set b \<and> CHR ''}'' \<notin> set b"

fun keep_piece :: "string \<Rightarrow> piece \<Rightarrow> piece" where
  "keep_piece f (Plain s) = Plain s"
| "keep_piece f (Tag n b) = (if n = f then Plain b else Tag n b)"

fun strip_piece :: "piece \<Rightarrow> string" where
  "strip_piece (Plain s) = s"
| "strip_piece (Tag n b) = []"

definition resolved :: "string \<Rightarrow> piece list \<Rightarrow> string" where
  "resolved f ps = concat (map (\<lambda>x. strip_piece (keep_piece f x)) ps)"

definition literal_name :: "string \<Rightarrow> bool" where
  "literal_name f \<longleftrightarrow>
     \<not> list_ex (\<lambda>c. c \<in> set special_chars \<or> c = CHR ''.'' \<or> c = dquote) f"

text \<open>
  A weaker condition on a text: every opening brace starts \<^verbatim>\<open>{If"\<close>, the opening of
  a conditional tag.
\<close>

fun opens_tags :: "string \<Rightarrow> bool" where
  "opens_tags [] = True"
| "opens_tags (c # cs) =
     (if c = CHR ''{'' then prefix if_open (c # cs) \<and> opens_tags cs else opens_tags cs)"

text \<open>
  A text in which no closing brace stands at or behind the first double quote: behind
  \<^verbatim>\<open>{If"\<close>, neither tag pattern can match in it.
\<close>

definition dead :: "string \<Rightarrow> bool" where
  "dead r \<longleftrightarrow> CHR ''}'' \<notin> set (dropWhile (\<lambda>c. c \<noteq> dquote) r)"

text \<open>The texts of the end-to-end scenario.\<close>

definition example_base :: string where
  "example_base = ''<html>{Content}</html>''"

definition example_content :: string where
  \<open>example_content =
     ''<p>{greeting}, {.name}!</p>{If"index"<b>Home</b>}{If"about"<b>About</b>}''\<close>

lemmas pipeline_defs =
  render_def completeness_check_def substituted_def content_injection_def
  name_substitution_def token_def match_key_def lit_def key_char_def in_range_def
  conditional_resolution_def compile_name_def special_chars_def match_keep_def
  match_strip_def if_open_def dquote_def example_base_def example_content_def
  no_jana_cabe_def

section \<open>Replacement of every occurrence\<close>

text \<open>
  The tokens that the script replaces start with an opening brace that does not come
  back inside them. For such a token, a text made of token-free segments joined by the
  token is turned into the same segments joined by the new text: every occurrence is
  replaced, and what is put in is not looked at again.
\<close>

lemma replace_absent:
  "old \<noteq> [] \<Longrightarrow> \<not> sublist old s \<Longrightarrow> replace old new s = s"
proof (induction s)
  case Nil
  then show ?case by simp
next
  case (Cons c cs)
  from Cons.prems have "\<not> prefix old (c # cs)" and "\<not> sublist old cs"
    by (auto simp: sublist_Cons_right)
  with Cons show ?case by simp
qed

lemma replace_skip:
  "old \<noteq> [] \<Longrightarrow> \<not> prefix old (c # cs) \<Longrightarrow> replace old new (c # cs) = c # replace old new cs"
  by simp

lemma no_straddle:
  assumes "c \<notin> set w" "\<not> sublist (c # w) seg" "seg \<noteq> []"
  shows "\<not> prefix (c # w) (seg @ c # w @ rest)"
proof
  assume "prefix (c # w) (seg @ c # w @ rest)"
  then consider "prefix (c # w) seg"
    | us where "c # w = seg @ us" "prefix us (c # w @ rest)"
    by (auto simp: prefix_append)
  then show False
  proof cases
    case 1
    then show ?thesis using assms(2) by (simp add: prefix_imp_sublist)
  next
    case 2
    show ?thesis
    proof (cases us)
      case Nil
      with 2 have "seg = c # w" by simp
      with assms(2) show ?thesis by simp
    next
      case (Cons u us')
      with 2(2) have "u = c" by simp
      moreover from 2(1) assms(3) Cons have "u \<in> set w"
        by (cases seg) auto
      ultimately show ?thesis using assms(1) by simp
    qed
  qed
qed

lemma replace_segment:
  assumes "c \<notin> set w" "\<not> sublist (c # w) seg"
  shows "replace (c # w) new (seg @ c # w @ rest) = seg @ new @ replace (c # w) new rest"
  using assms(2)
proof (induction seg)
  case Nil
  show ?case by simp
next
  case (Cons a seg)
  from Cons.prems have ns: "\<not> sublist (c # w) seg"
    by (simp add: sublist_Cons_right)
  have "\<not> prefix (c # w) (a # (seg @ c # w @ rest))"
    using no_straddle [OF assms(1) Cons.prems, of rest] by (simp only: append_Cons list.distinct simp_thms)
  then have "replace (c # w) new (a # (seg @ c # w @ rest))
      = a # replace (c # w) new (seg @ c # w @ rest)"
    by (intro replace_skip) simp_all
  then show ?case using Cons.IH [OF ns] by (simp only: append_Cons)
qed

lemma replace_join:
  assumes "c \<notin> set w" "\<forall>s\<in>set segs. \<not> sublist (c # w) s"
  shows "replace (c # w) new (join (c # w) segs) = join new segs"
  using assms(2)
proof (induction "c # w" segs rule: join.induct)
  case 1
  show ?case by simp
next
  case (2 s)
  then show ?case by (simp add: replace_absent)
next
  case (3 s t ts)
  then have "replace (c # w) new (s @ c # w @ join (c # w) (t # ts))
    = s @ new @ replace (c # w) new (join (c # w) (t # ts))"
    using replace_segment [OF assms(1), of s] by simp
  with 3 show ?case by simp
qed

lemma key_substitution_append:
  "key_substitution (lang1 @ lang2) page = key_substitution lang2 (key_substitution lang1 page)"
  by (induction lang1 page rule: key_substitution.induct) simp_all

lemma key_substitution_snoc:
  "key_substitution (lang @ [(key, val)]) page = replace (token key) val (key_substitution lang page)"
  by (induction lang page rule: key_substitution.induct) simp_all

lemma replace_at_occurrence:
  "old \<noteq> [] \<Longrightarrow> replace old new (old @ rest) = new @ replace old new rest"
  by (cases old) simp_all

lemma replace_as_join:
  assumes "old \<noteq> []"
  shows "\<exists>segs. segs \<noteq> [] \<and> s = join old segs \<and> list_all (\<lambda>x. \<not> sublist old x) segs \<and>
    (\<forall>new. replace old new s = join new segs)"
proof (induction s rule: length_induct)
  case (1 s)
  show ?case
  proof (cases s)
    case Nil
    have "[[]] \<noteq> [] \<and> s = join old [[]] \<and> list_all (\<lambda>x. \<not> sublist old x) [[]] \<and>
      (\<forall>new. replace old new s = join new [[]])"
      using assms by (simp add: Nil)
    then show ?thesis by blast
  next
    case (Cons c cs)
    show ?thesis
    proof (cases "prefix old s")
      case True
      then obtain rest where s: "s = old @ rest" by (auto elim: prefixE)
      with assms have "length rest < length s" by simp
      with 1 obtain segs where segs: "segs \<noteq> []" "rest = join old segs"
        "list_all (\<lambda>x. \<not> sublist old x) segs" "\<forall>new. replace old new rest = join new segs"
        by blast
      from segs(1) obtain x xs where x: "segs = x # xs" by (cases segs) auto
      have "[] # segs \<noteq> [] \<and> s = join old ([] # segs) \<and>
        list_all (\<lambda>x. \<not> sublist old x) ([] # segs) \<and>
        (\<forall>new. replace old new s = join new ([] # segs))"
        using segs assms by (simp add: x s replace_at_occurrence)
      then show ?thesis by blast
    next
      case False
      have "length cs < length s" by (simp add: Cons)
      with 1 obtain segs where segs: "segs \<noteq> []" "cs = join old segs"
        "list_all (\<lambda>x. \<not> sublist old x) segs" "\<forall>new. replace old new cs = join new segs"
        by blast
      from segs(1) obtain x xs where x: "segs = x # xs" by (cases segs) auto
      have px: "prefix x cs" using segs(2) by (cases xs) (simp_all add: x)
      have "\<not> prefix old (c # x)"
      proof
        assume "prefix old (c # x)"
        moreover have "prefix (c # x) (c # cs)" using px by simp
        ultimately have "prefix old (c # cs)" by (rule prefix_order.trans)
        with False show False by (simp add: Cons)
      qed
      moreover have "\<not> sublist old x" using segs(3) by (simp add: x)
      ultimately have nx: "\<not> sublist old (c # x)" by (simp add: sublist_Cons_right)
      have j: "join sep ((c # x) # xs) = c # join sep (x # xs)" for sep
        by (cases xs) simp_all
      have r: "replace old new s = join new ((c # x) # xs)" for new
      proof -
        have "replace old new (c # cs) = c # replace old new cs"
          using assms False [unfolded Cons] by (rule replace_skip)
        also have "\<dots> = c # join new (x # xs)" using segs(4) by (simp add: x)
        also have "\<dots> = join new ((c # x) # xs)" by (simp only: j)
        finally show ?thesis unfolding Cons .
      qed
      have "s = join old ((c # x) # xs)" using segs(2) by (simp only: Cons x j)
      moreover have "list_all (\<lambda>x. \<not> sublist old x) ((c # x) # xs)"
        using segs(3) nx by (simp add: x)
      ultimately have "(c # x) # xs \<noteq> [] \<and> s = join old ((c # x) # xs) \<and>
        list_all (\<lambda>x. \<not> sublist old x) ((c # x) # xs) \<and>
        (\<forall>new. replace old new s = join new ((c # x) # xs))"
        using r by blast
      then show ?thesis by blast
    qed
  qed
qed

section \<open>The search finds the leftmost token\<close>

lemma not_key_char_close: "\<not> key_char CHR ''}''"
  by (simp add: key_char_def in_range_def)

lemma match_key_sound:
  assumes "match_key s = Some k"
  shows "token_at k s"
proof -
  from assms obtain r r' where s: "s = CHR ''{'' # r" and k: "k = takeWhile key_char r"
    and ne: "takeWhile key_char r \<noteq> []" and d: "dropWhile key_char r = CHR ''}'' # r'"
    by (cases s) (auto simp: match_key_def lit_def bind_eq_Some_conv split: if_splits elim!: prefixE)
  have "r = (k @ ''}'') @ r'"
    using takeWhile_dropWhile_id [of key_char r] k d by simp
  then have "prefix (k @ ''}'') r" by (rule prefixI)
  moreover have "list_all key_char k"
    unfolding k list_all_iff by (auto dest: set_takeWhileD)
  ultimately show ?thesis using s k ne by (simp add: token_at_def token_def)
qed

lemma match_key_complete:
  assumes "token_at k s"
  shows "match_key s = Some k"
proof -
  from assms obtain r' where s: "s = CHR ''{'' # k @ CHR ''}'' # r'"
    and ne: "k \<noteq> []" and kc: "\<forall>c\<in>set k. key_char c"
    by (auto simp: token_at_def token_def list_all_iff elim!: prefixE)
  have t: "takeWhile key_char (k @ CHR ''}'' # r') = k"
    using kc by (simp add: takeWhile_append2 not_key_char_close)
  have d: "dropWhile key_char (k @ CHR ''}'' # r') = CHR ''}'' # r'"
    using kc by (simp add: dropWhile_append2 not_key_char_close)
  show ?thesis unfolding s match_key_def using ne by (simp add: lit_def t d)
qed

lemma match_key_None: "(\<And>k. \<not> token_at k s) \<Longrightarrow> match_key s = None"
  using match_key_sound by (cases "match_key s") auto

lemma token_at_Nil: "\<not> token_at k []"
  by (simp add: token_at_def token_def)

lemma search_key_leftmost:
  assumes "token_at k (drop n page)" "\<forall>m<n. \<forall>k'. \<not> token_at k' (drop m page)"
  shows "search_key page = Some k"
  using assms
proof (induction page arbitrary: n)
  case Nil
  then show ?case by (simp add: token_at_Nil)
next
  case (Cons c cs)
  show ?case
  proof (cases n)
    case 0
    with Cons.prems(1) have "match_key (c # cs) = Some k"
      by (simp add: match_key_complete)
    then show ?thesis by simp
  next
    case (Suc n')
    with Cons.prems(2) have "\<And>k'. \<not> token_at k' (c # cs)" by force
    then have none: "match_key (c # cs) = None" by (rule match_key_None)
    have "\<forall>m<n'. \<forall>k'. \<not> token_at k' (drop m cs)"
      using Cons.prems(2) Suc by force
    moreover have "token_at k (drop n' cs)" using Cons.prems(1) Suc by simp
    ultimately have "search_key cs = Some k" by (rule Cons.IH [rotated])
    with none show ?thesis by simp
  qed
qed

lemma search_key_finds:
  assumes "token_at k (drop n page)"
  shows "\<exists>k' m. search_key page = Some k' \<and> token_at k' (drop m page)"
  using assms
proof (induction page arbitrary: n)
  case Nil
  then show ?case by (simp add: token_at_Nil)
next
  case (Cons c cs)
  show ?case
  proof (cases "match_key (c # cs)")
    case (Some k')
    then have "token_at k' (drop 0 (c # cs))" by (simp add: match_key_sound)
    moreover have "search_key (c # cs) = Some k'" using Some by simp
    ultimately show ?thesis by blast
  next
    case None
    have "n \<noteq> 0"
      using None Cons.prems match_key_complete [of k "c # cs"] by (cases n) auto
    then obtain n' where n: "n = Suc n'" by (cases n) auto
    with Cons.prems have "token_at k (drop n' cs)" by simp
    from Cons.IH [OF this] obtain k' m where
      "search_key cs = Some k'" "token_at k' (drop m cs)" by blast
    then have "search_key (c # cs) = Some k'" "token_at k' (drop (Suc m) (c # cs))"
      using None by simp_all
    then show ?thesis by blast
  qed
qed

lemma no_token_iff: "(\<forall>k. \<not> token_at k s) \<longleftrightarrow> match_key s = None"
  using match_key_complete [of _ s] match_key_None [of s] by fastforce

section \<open>The passes on a well-formed text\<close>

lemma match_key_other: "CHR ''{'' \<noteq> c \<Longrightarrow> match_key (c # cs) = None"
  by (simp add: match_key_def lit_def)

lemma match_key_if_open: "match_key (if_open @ r) = None"
  by (simp add: match_key_def lit_def if_open_def dquote_def key_char_def in_range_def)

lemma search_key_no_open: "CHR ''{'' \<notin> set s \<Longrightarrow> search_key (s @ t) = search_key t"
  by (induction s) (simp_all add: match_key_other)

lemma search_key_piece:
  assumes "well_formed x"
  shows "search_key (flatten_piece x @ t) = search_key t"
proof (cases x)
  case (Plain s)
  with assms show ?thesis by (simp add: search_key_no_open)
next
  case (Tag n b)
  define inner where "inner = ''If'' @ dquote # n @ dquote # b @ ''}''"
  have fp: "flatten_piece x @ t = CHR ''{'' # inner @ t"
    by (simp add: Tag inner_def if_open_def)
  have "match_key (flatten_piece x @ t) = None"
    using match_key_if_open [of "n @ dquote # b @ ''}'' @ t"] by (simp add: Tag)
  then have "search_key (flatten_piece x @ t) = search_key (inner @ t)"
    by (simp add: fp)
  moreover have "CHR ''{'' \<notin> set inner"
    using assms by (simp add: Tag inner_def dquote_def)
  ultimately show ?thesis by (simp add: search_key_no_open)
qed

lemma search_key_flatten:
  "list_all well_formed ps \<Longrightarrow> search_key (flatten ps) = None"
  by (induction ps) (simp_all add: flatten_def search_key_piece)

lemma match_keep_other: "CHR ''{'' \<noteq> c \<Longrightarrow> match_keep p (c # cs) = None"
  by (simp add: match_keep_def lit_def if_open_def)

lemma match_strip_other: "CHR ''{'' \<noteq> c \<Longrightarrow> match_strip (c # cs) = None"
  by (simp add: match_strip_def lit_def if_open_def)

lemma keep_pass_no_open: "CHR ''{'' \<notin> set s \<Longrightarrow> keep_pass p (s @ t) = s @ keep_pass p t"
  by (induction s) (simp_all add: match_keep_other)

lemma strip_pass_no_open: "CHR ''{'' \<notin> set s \<Longrightarrow> strip_pass (s @ t) = s @ strip_pass t"
  by (induction s) (simp_all add: match_strip_other)

lemma lit_if_open: "lit if_open (if_open @ r) = Some r"
  by (simp add: lit_def)

lemma name_then_quote:
  assumes "dquote \<notin> set f" "dquote \<notin> set n"
  shows "match_name (map Lit f) (n @ dquote # r) \<bind> lit [dquote]
     = (if n = f then Some r else None)"
  using assms
proof (induction f arbitrary: n)
  case Nil
  then show ?case by (cases n) (auto simp: lit_def)
next
  case (Cons a f)
  then show ?case by (cases n) (auto simp: lit_def)
qed

lemma body_then_close:
  assumes "CHR ''}'' \<notin> set b"
  shows "takeWhile (\<lambda>c. c \<noteq> CHR ''}'') (b @ CHR ''}'' # t) = b"
    and "dropWhile (\<lambda>c. c \<noteq> CHR ''}'') (b @ CHR ''}'' # t) = CHR ''}'' # t"
  using assms by (induction b) auto

lemma match_keep_tag:
  assumes "dquote \<notin> set f" "dquote \<notin> set n" "CHR ''}'' \<notin> set b"
  shows "match_keep (map Lit f) (flatten_piece (Tag n b) @ t)
     = (if n = f then Some (b, t) else None)"
proof -
  have "match_keep (map Lit f) (if_open @ n @ dquote # b @ CHR ''}'' # t)
      = (match_name (map Lit f) (n @ dquote # b @ CHR ''}'' # t) \<bind> lit [dquote]) \<bind> (\<lambda>r.
       lit ''}'' (dropWhile (\<lambda>c. c \<noteq> CHR ''}'') r) \<bind> (\<lambda>after.
         Some (takeWhile (\<lambda>c. c \<noteq> CHR ''}'') r, after)))"
    unfolding match_keep_def lit_if_open by simp
  also have "\<dots> = (if n = f then Some (b, t) else None)"
    unfolding name_then_quote [OF assms(1,2)]
    by (simp add: body_then_close [OF assms(3)] lit_def)
  finally show ?thesis by simp
qed

lemma name_to_quote:
  assumes "dquote \<notin> set n"
  shows "dropWhile (\<lambda>c. c \<noteq> dquote) (n @ dquote # r) = dquote # r"
  using assms by (induction n) auto

lemma match_strip_tag:
  assumes "dquote \<notin> set n" "CHR ''}'' \<notin> set b"
  shows "match_strip (flatten_piece (Tag n b) @ t) = Some t"
proof -
  have "match_strip (if_open @ n @ dquote # b @ CHR ''}'' # t) = Some t"
    unfolding match_strip_def lit_if_open
    by (simp add: name_to_quote [OF assms(1)] body_then_close [OF assms(2)] lit_def)
  then show ?thesis by simp
qed


lemma keep_pass_piece:
  assumes "well_formed x" "dquote \<notin> set f"
  shows "keep_pass (map Lit f) (flatten_piece x @ t)
     = flatten_piece (keep_piece f x) @ keep_pass (map Lit f) t"
proof (cases x)
  case (Plain s)
  with assms show ?thesis by (simp add: keep_pass_no_open)
next
  case (Tag n b)
  with assms have wf: "dquote \<notin> set n" "CHR ''{'' \<notin> set n" "CHR ''{'' \<notin> set b"
    "CHR ''}'' \<notin> set b" by simp_all
  define inner where "inner = ''If'' @ dquote # n @ dquote # b @ ''}''"
  have fp: "\<And>t. flatten_piece (Tag n b) @ t = CHR ''{'' # inner @ t"
    by (simp add: inner_def if_open_def)
  have m: "match_keep (map Lit f) (CHR ''{'' # inner @ t) = (if n = f then Some (b, t) else None)"
    using match_keep_tag [OF assms(2) wf(1,4), of t] unfolding fp .
  show ?thesis
  proof (cases "n = f")
    case True
    then show ?thesis unfolding Tag fp by (simp add: m)
  next
    case False
    have "CHR ''{'' \<notin> set inner"
      using wf by (simp add: inner_def dquote_def)
    then have "keep_pass (map Lit f) (inner @ t) = inner @ keep_pass (map Lit f) t"
      by (rule keep_pass_no_open)
    with False have "keep_pass (map Lit f) (CHR ''{'' # inner @ t)
        = CHR ''{'' # inner @ keep_pass (map Lit f) t"
      by (simp add: m)
    with False show ?thesis unfolding Tag by (simp only: fp keep_piece.simps if_False)
  qed
qed

lemma strip_pass_piece:
  assumes "well_formed x"
  shows "strip_pass (flatten_piece x @ t) = strip_piece x @ strip_pass t"
proof (cases x)
  case (Plain s)
  with assms show ?thesis by (simp add: strip_pass_no_open)
next
  case (Tag n b)
  with assms have wf: "dquote \<notin> set n" "CHR ''}'' \<notin> set b" by simp_all
  define inner where "inner = ''If'' @ dquote # n @ dquote # b @ ''}''"
  have fp: "flatten_piece (Tag n b) @ t = CHR ''{'' # inner @ t"
    by (simp add: inner_def if_open_def)
  have "match_strip (CHR ''{'' # inner @ t) = Some t"
    using match_strip_tag [OF wf, of t] unfolding fp .
  then show ?thesis unfolding Tag fp by simp
qed

lemma well_formed_keep_piece: "well_formed x \<Longrightarrow> well_formed (keep_piece f x)"
  by (cases x) simp_all

lemma keep_pass_flatten:
  assumes "dquote \<notin> set f"
  shows "list_all well_formed ps \<Longrightarrow>
    keep_pass (map Lit f) (flatten ps) = flatten (map (keep_piece f) ps)"
  by (induction ps) (simp_all add: flatten_def keep_pass_piece [OF _ assms])

lemma strip_pass_flatten:
  "list_all well_formed ps \<Longrightarrow> strip_pass (flatten ps) = concat (map strip_piece ps)"
  by (induction ps) (simp_all add: flatten_def strip_pass_piece)

lemma compile_literal_name: "literal_name f \<Longrightarrow> compile_name f = Some (map Lit f)"
  by (auto simp: literal_name_def compile_name_def list_ex_iff)

lemma literal_name_no_quote: "literal_name f \<Longrightarrow> dquote \<notin> set f"
  by (auto simp: literal_name_def list_ex_iff)

lemma resolution_flatten:
  assumes "list_all well_formed ps" "literal_name f"
  shows "conditional_resolution f (flatten ps) = Some (resolved f ps)"
proof -
  have "list_all well_formed (map (keep_piece f) ps)"
    using assms(1) by (simp add: list_all_iff well_formed_keep_piece)
  then have "strip_pass (flatten (map (keep_piece f) ps)) = resolved f ps"
    by (simp add: strip_pass_flatten resolved_def comp_def)
  then show ?thesis
    using keep_pass_flatten [OF literal_name_no_quote [OF assms(2)] assms(1)]
    by (simp add: conditional_resolution_def compile_literal_name [OF assms(2)])
qed

section \<open>Texts whose opening braces start tags\<close>

text \<open>
  The keep pass keeps the property that every opening brace starts \<^verbatim>\<open>{If"\<close>. On such
  a text the strip pass removes every match up to the first opening brace at which its
  pattern fails; behind that brace no closing brace follows a double quote, so neither
  pattern matches there. The result of the strip pass is therefore left as it is by both
  passes.
\<close>

lemma opens_tags_suffix: "opens_tags (xs @ ys) \<Longrightarrow> opens_tags ys"
  by (induction xs) (simp_all split: if_splits)

lemma prefix_before: "x \<notin> set w \<Longrightarrow> prefix w (u @ x # v) \<Longrightarrow> prefix w u"
proof (induction w arbitrary: u)
  case Nil
  then show ?case by simp
next
  case (Cons a w)
  show ?case
  proof (cases u)
    case Nil
    with Cons.prems show ?thesis by simp
  next
    case (Cons b u')
    with Cons.prems Cons.IH [of u'] show ?thesis by simp
  qed
qed


lemma opens_tags_body:
  "opens_tags (body @ CHR ''}'' # after) \<Longrightarrow> opens_tags rest \<Longrightarrow> opens_tags (body @ rest)"
proof (induction body)
  case Nil
  then show ?case by simp
next
  case (Cons c body)
  from Cons.prems(1) have t: "opens_tags (body @ CHR ''}'' # after)"
    by (simp split: if_splits)
  have IH: "opens_tags (body @ rest)" using Cons.IH [OF t Cons.prems(2)] .
  show ?case
  proof (cases "c = CHR ''{''")
    case True
    with Cons.prems(1) have p: "prefix if_open ((c # body) @ CHR ''}'' # after)" by simp
    have "CHR ''}'' \<notin> set if_open" by (simp add: if_open_def dquote_def)
    from prefix_before [OF this p] have "prefix if_open ((c # body) @ rest)"
      by (rule prefix_prefix)
    with True IH show ?thesis by simp
  next
    case False
    with IH show ?thesis by simp
  qed
qed

lemma lit_Some: "lit w s = Some r \<Longrightarrow> s = w @ r"
  by (auto simp: lit_def split: if_splits elim: prefixE)

lemma match_name_suffix: "match_name p s = Some r \<Longrightarrow> \<exists>x. s = x @ r"
proof (induction p s rule: match_name.induct)
  case (1 s)
  then show ?case by simp
next
  case (2 a as)
  then show ?case by simp
next
  case (3 c as d ds)
  show ?case
  proof (cases "c = d")
    case True
    with 3 obtain x where "ds = x @ r" by auto
    then have "d # ds = (d # x) @ r" by simp
    then show ?thesis by (rule exI)
  next
    case False
    with 3 show ?thesis by simp
  qed
next
  case (4 as d ds)
  show ?case
  proof (cases "d = CHR 0x0A")
    case True
    with 4 show ?thesis by simp
  next
    case False
    with 4 obtain x where "ds = x @ r" by auto
    then have "d # ds = (d # x) @ r" by simp
    then show ?thesis by (rule exI)
  qed
qed

lemma dropWhile_close:
  assumes "lit ''}'' (dropWhile (\<lambda>c. c \<noteq> CHR ''}'') r) = Some after"
  shows "r = takeWhile (\<lambda>c. c \<noteq> CHR ''}'') r @ CHR ''}'' # after"
proof -
  have d: "dropWhile (\<lambda>c. c \<noteq> CHR ''}'') r = CHR ''}'' # after"
    using lit_Some [OF assms] by simp
  from takeWhile_dropWhile_id [of "\<lambda>c. c \<noteq> CHR ''}''" r, unfolded d]
  show ?thesis by (rule sym)
qed


lemma match_keep_Some:
  assumes "match_keep p s = Some (body, after)"
  shows "\<exists>x. s = x @ body @ CHR ''}'' # after"
proof -
  from assms obtain r1 r2 r3 where
    r1: "lit if_open s = Some r1" and r2: "match_name p r1 = Some r2" and
    r3: "lit [dquote] r2 = Some r3" and
    r4: "lit ''}'' (dropWhile (\<lambda>c. c \<noteq> CHR ''}'') r3) = Some after" and
    b: "body = takeWhile (\<lambda>c. c \<noteq> CHR ''}'') r3"
    by (auto simp: match_keep_def bind_eq_Some_conv)
  from match_name_suffix [OF r2] obtain x where x: "r1 = x @ r2" by blast
  have "r3 = body @ CHR ''}'' # after" using dropWhile_close [OF r4] b by simp
  then have "s = (if_open @ x @ [dquote]) @ body @ CHR ''}'' # after"
    using lit_Some [OF r1] lit_Some [OF r3] x by simp
  then show ?thesis by (rule exI)
qed

lemma match_strip_Some:
  assumes "match_strip s = Some after"
  shows "\<exists>x. s = x @ after"
proof -
  from assms obtain r1 r2 where
    r1: "lit if_open s = Some r1" and
    r2: "lit [dquote] (dropWhile (\<lambda>c. c \<noteq> dquote) r1) = Some r2" and
    r3: "lit ''}'' (dropWhile (\<lambda>c. c \<noteq> CHR ''}'') r2) = Some after"
    by (auto simp: match_strip_def bind_eq_Some_conv)
  have d: "dropWhile (\<lambda>c. c \<noteq> dquote) r1 = dquote # r2"
    using lit_Some [OF r2] by simp
  have e1: "r1 = takeWhile (\<lambda>c. c \<noteq> dquote) r1 @ dquote # r2"
    using takeWhile_dropWhile_id [of "\<lambda>c. c \<noteq> dquote" r1, unfolded d] by (rule sym)
  have e2: "r2 = takeWhile (\<lambda>c. c \<noteq> CHR ''}'') r2 @ CHR ''}'' # after"
    using dropWhile_close [OF r3] .
  have "s = if_open @ r1" using lit_Some [OF r1] .
  also have "\<dots> = if_open @ takeWhile (\<lambda>c. c \<noteq> dquote) r1 @ dquote # r2"
    using e1 by simp
  also have "\<dots> = (if_open @ takeWhile (\<lambda>c. c \<noteq> dquote) r1 @ dquote #
      takeWhile (\<lambda>c. c \<noteq> CHR ''}'') r2 @ ''}'') @ after"
    using e2 by simp
  finally show ?thesis by (rule exI)
qed


lemma keep_pass_skip_open:
  assumes "prefix if_open (c # cs)" "match_keep p (c # cs) = None"
  shows "prefix if_open (keep_pass p (c # cs))"
proof -
  from assms(1) obtain r where r: "c # cs = if_open @ r" by (auto elim: prefixE)
  then have c: "c = CHR ''{''" and cs: "cs = (''If'' @ [dquote]) @ r"
    by (simp_all add: if_open_def)
  have "CHR ''{'' \<notin> set (''If'' @ [dquote])" by (simp add: dquote_def)
  from keep_pass_no_open [OF this, of p r]
  have "keep_pass p cs = (''If'' @ [dquote]) @ keep_pass p r" by (simp only: cs)
  then have "keep_pass p (c # cs) = if_open @ keep_pass p r"
    using assms(2) by (simp add: c if_open_def)
  then show ?thesis by simp
qed

lemma keep_pass_opens_tags: "opens_tags s \<Longrightarrow> opens_tags (keep_pass p s)"
proof (induction p s rule: keep_pass.induct)
  case (1 p)
  then show ?case by simp
next
  case (2 p c cs)
  show ?case
  proof (cases "match_keep p (c # cs)")
    case None
    have "opens_tags cs" using "2.prems" by (simp split: if_splits)
    then have tl: "opens_tags (keep_pass p cs)" using "2.IH"(1) [OF None] by simp
    have k: "keep_pass p (c # cs) = c # keep_pass p cs" using None by simp
    show ?thesis
    proof (cases "c = CHR ''{''")
      case True
      with "2.prems" have "prefix if_open (c # cs)" by simp
      from keep_pass_skip_open [OF this None]
      have "prefix if_open (c # keep_pass p cs)" by (simp only: k)
      with tl show ?thesis by (simp only: k opens_tags.simps) simp
    next
      case False
      with tl show ?thesis by (simp only: k opens_tags.simps) simp
    qed
  next
    case (Some ba)
    obtain body after where ba: "ba = (body, after)" by (cases ba)
    have m: "match_keep p (c # cs) = Some (body, after)" using Some ba by simp
    from match_keep_Some [OF m] obtain x where
      s: "c # cs = x @ body @ CHR ''}'' # after" by blast
    have "opens_tags (x @ body @ CHR ''}'' # after)" using "2.prems" by (simp only: s)
    then have b: "opens_tags (body @ CHR ''}'' # after)" by (rule opens_tags_suffix)
    have "opens_tags ((body @ ''}'') @ after)" using b by simp
    then have "opens_tags after" by (rule opens_tags_suffix)
    then have "opens_tags (keep_pass p after)"
      using "2.IH"(2) [OF m refl] by simp
    with b have "opens_tags (body @ keep_pass p after)" by (rule opens_tags_body)
    moreover have "keep_pass p (c # cs) = body @ keep_pass p after" using m by simp
    ultimately show ?thesis by simp
  qed
qed

lemma dead_suffix: "dead (xs @ t) \<Longrightarrow> dead t"
proof (induction xs)
  case Nil
  then show ?case by simp
next
  case (Cons x xs)
  show ?case
  proof (cases "x = dquote")
    case True
    with Cons.prems have "CHR ''}'' \<notin> set t" by (simp add: dead_def)
    then show ?thesis unfolding dead_def by (auto dest: set_dropWhileD)
  next
    case False
    with Cons show ?thesis by (simp add: dead_def)
  qed
qed

lemma from_quote:
  "dropWhile (\<lambda>c. c \<noteq> dquote) r = [] \<or>
   (\<exists>r2. dropWhile (\<lambda>c. c \<noteq> dquote) r = dquote # r2)"
proof (cases "dropWhile (\<lambda>c. c \<noteq> dquote) r")
  case Nil
  then show ?thesis by simp
next
  case (Cons x r2)
  have "\<not> (hd (dropWhile (\<lambda>c. c \<noteq> dquote) r) \<noteq> dquote)"
    by (rule hd_dropWhile) (simp add: Cons)
  then show ?thesis by (simp add: Cons)
qed

lemma lit_close_None:
  "lit ''}'' (dropWhile (\<lambda>c. c \<noteq> CHR ''}'') r) = None \<longleftrightarrow> CHR ''}'' \<notin> set r"
proof (cases "dropWhile (\<lambda>c. c \<noteq> CHR ''}'') r")
  case Nil
  then have "CHR ''}'' \<notin> set r" by (auto simp: dropWhile_eq_Nil_conv)
  moreover have "lit ''}'' (dropWhile (\<lambda>c. c \<noteq> CHR ''}'') r) = None"
    unfolding Nil by (simp add: lit_def)
  ultimately show ?thesis by simp
next
  case (Cons x r2)
  have "\<not> (hd (dropWhile (\<lambda>c. c \<noteq> CHR ''}'') r) \<noteq> CHR ''}'')"
    by (rule hd_dropWhile) (simp add: Cons)
  then have x: "x = CHR ''}''" by (simp add: Cons)
  have "dropWhile (\<lambda>c. c \<noteq> CHR ''}'') r \<noteq> []" by (simp add: Cons)
  then have "CHR ''}'' \<in> set r" by (auto simp: dropWhile_eq_Nil_conv)
  moreover have "lit ''}'' (dropWhile (\<lambda>c. c \<noteq> CHR ''}'') r) \<noteq> None"
    unfolding Cons x by (simp add: lit_def)
  ultimately show ?thesis by simp
qed

lemma match_strip_None_iff: "match_strip (if_open @ r) = None \<longleftrightarrow> dead r"
proof -
  have m: "match_strip (if_open @ r) = lit [dquote] (dropWhile (\<lambda>c. c \<noteq> dquote) r) \<bind>
      (\<lambda>r2. lit ''}'' (dropWhile (\<lambda>c. c \<noteq> CHR ''}'') r2))"
    by (simp add: match_strip_def lit_if_open)
  from from_quote [of r] show ?thesis
  proof
    assume e: "dropWhile (\<lambda>c. c \<noteq> dquote) r = []"
    show ?thesis unfolding m dead_def e by (simp add: lit_def)
  next
    assume "\<exists>r2. dropWhile (\<lambda>c. c \<noteq> dquote) r = dquote # r2"
    then obtain r2 where d: "dropWhile (\<lambda>c. c \<noteq> dquote) r = dquote # r2" by blast
    have l: "lit [dquote] (dquote # r2) = Some r2" by (simp add: lit_def)
    have "match_strip (if_open @ r) = lit ''}'' (dropWhile (\<lambda>c. c \<noteq> CHR ''}'') r2)"
      unfolding m d l by simp
    moreover have "dead r \<longleftrightarrow> CHR ''}'' \<notin> set r2"
      unfolding dead_def d by (simp add: dquote_def)
    ultimately show ?thesis by (simp only: lit_close_None)
  qed
qed

lemma match_keep_dead:
  assumes "dead r"
  shows "match_keep p (if_open @ r) = None"
proof (cases "match_keep p (if_open @ r)")
  case None
  then show ?thesis .
next
  case (Some ba)
  then obtain r2 r3 after where
    r2: "match_name p r = Some r2" and
    r3: "lit [dquote] r2 = Some r3" and
    r4: "lit ''}'' (dropWhile (\<lambda>c. c \<noteq> CHR ''}'') r3) = Some after"
    by (auto simp: match_keep_def lit_if_open bind_eq_Some_conv)
  from match_name_suffix [OF r2] obtain x where "r = x @ r2" by blast
  with assms have "dead r2" using dead_suffix by blast
  moreover have "r2 = dquote # r3" using lit_Some [OF r3] by simp
  ultimately have "CHR ''}'' \<notin> set r3" by (simp add: dead_def)
  then have "lit ''}'' (dropWhile (\<lambda>c. c \<noteq> CHR ''}'') r3) = None"
    by (simp add: lit_close_None)
  with r4 show ?thesis by simp
qed


lemma lit_if_open_cases:
  "lit if_open s = None \<or> (\<exists>r. s = if_open @ r)"
  by (cases "lit if_open s") (auto dest: lit_Some)

lemma dead_no_match:
  assumes "dead r"
  shows "match_strip r = None \<and> match_keep p r = None"
proof -
  from lit_if_open_cases [of r] show ?thesis
  proof
    assume "lit if_open r = None"
    then show ?thesis by (simp add: match_strip_def match_keep_def)
  next
    assume "\<exists>r'. r = if_open @ r'"
    then obtain r' where r': "r = if_open @ r'" by blast
    with assms have "dead r'" using dead_suffix by blast
    then show ?thesis
      unfolding r' by (simp add: match_strip_None_iff match_keep_dead)
  qed
qed

lemma dead_fixed:
  "dead r \<Longrightarrow> strip_pass r = r \<and> keep_pass p r = r"
proof (induction r)
  case Nil
  then show ?case by simp
next
  case (Cons c cs)
  from Cons.prems have "dead cs" using dead_suffix [of "[c]" cs] by simp
  with Cons.IH have "strip_pass cs = cs \<and> keep_pass p cs = cs" by simp
  then show ?case
    using dead_no_match [OF Cons.prems, of p] by simp
qed

lemma dead_open_fixed:
  assumes "dead r"
  shows "strip_pass (if_open @ r) = if_open @ r \<and> keep_pass p (if_open @ r) = if_open @ r"
proof -
  define inner where "inner = ''If'' @ [dquote]"
  have o: "if_open @ r = CHR ''{'' # inner @ r" by (simp add: if_open_def inner_def)
  have n: "CHR ''{'' \<notin> set inner" by (simp add: inner_def dquote_def)
  have m: "match_strip (CHR ''{'' # inner @ r) = None" "match_keep p (CHR ''{'' # inner @ r) = None"
    using assms match_strip_None_iff [of r] match_keep_dead [of r p] unfolding o by simp_all
  have "strip_pass (inner @ r) = inner @ r" "keep_pass p (inner @ r) = inner @ r"
    using strip_pass_no_open [OF n, of r] keep_pass_no_open [OF n, of p r]
      dead_fixed [OF assms, of p] by simp_all
  then show ?thesis unfolding o using m by simp
qed

lemma strip_pass_length: "length (strip_pass s) \<le> length s"
proof (induction s rule: strip_pass.induct)
  case 1
  then show ?case by simp
next
  case (2 c cs)
  show ?case
  proof (cases "match_strip (c # cs)")
    case None
    with "2.IH"(1) show ?thesis by simp
  next
    case (Some after)
    from match_strip_shorter [OF Some] "2.IH"(2) [OF Some] Some
    show ?thesis by simp
  qed
qed

lemma fixed_no_match: "strip_pass s = s \<Longrightarrow> match_strip (drop n s) = None"
proof (induction s arbitrary: n)
  case Nil
  then show ?case by (simp add: match_strip_def lit_def if_open_def)
next
  case (Cons c cs)
  have none: "match_strip (c # cs) = None"
  proof (cases "match_strip (c # cs)")
    case None
    then show ?thesis .
  next
    case (Some after)
    then have "strip_pass (c # cs) = strip_pass after" by simp
    then have "length (strip_pass (c # cs)) \<le> length after"
      using strip_pass_length [of after] by simp
    with match_strip_shorter [OF Some] Cons.prems show ?thesis by simp
  qed
  with Cons.prems have "strip_pass cs = cs" by simp
  from Cons.IH [OF this] none show ?case by (cases n) simp_all
qed

lemma strip_pass_fixed:
  "opens_tags s \<Longrightarrow>
    strip_pass (strip_pass s) = strip_pass s \<and> keep_pass p (strip_pass s) = strip_pass s"
proof (induction s rule: strip_pass.induct)
  case 1
  then show ?case by simp
next
  case (2 c cs)
  show ?case
  proof (cases "match_strip (c # cs)")
    case (Some after)
    from match_strip_Some [OF Some] obtain x where "c # cs = x @ after" by blast
    with "2.prems" have "opens_tags after" using opens_tags_suffix by metis
    from "2.IH"(2) [OF Some this] Some show ?thesis by simp
  next
    case None
    show ?thesis
    proof (cases "c = CHR ''{''")
      case False
      have "opens_tags cs" using "2.prems" False by simp
      from "2.IH"(1) [OF None this] have
        f: "strip_pass (strip_pass cs) = strip_pass cs" "keep_pass p (strip_pass cs) = strip_pass cs"
        by simp_all
      have "CHR ''{'' \<noteq> c" using False by simp
      then have "match_strip (c # strip_pass cs) = None" "match_keep p (c # strip_pass cs) = None"
        by (simp_all add: match_strip_other match_keep_other)
      with f None show ?thesis by simp
    next
      case True
      with "2.prems" have "prefix if_open (c # cs)" by simp
      then obtain r where r: "c # cs = if_open @ r" by (auto elim: prefixE)
      with None have "dead r" by (simp add: match_strip_None_iff)
      from dead_open_fixed [OF this, of p] have
        "strip_pass (c # cs) = c # cs" "keep_pass p (c # cs) = c # cs"
        by (simp_all only: r)
      then show ?thesis by (simp only:)
    qed
  qed
qed

section \<open>The claims\<close>

subsection \<open>The end-to-end scenario\<close>

text \<open>
  C1. With the base \<^verbatim>\<open><html>{Content}</html>\<close>, the content
  \<^verbatim>\<open><p>{greeting}, {.name}!</p>{If"index"<b>Home</b>}{If"about"<b>About</b>}\<close>, the
  page name \<open>index\<close> and the dictionary that maps \<open>greeting\<close> to \<open>Hello\<close>, the
  pipeline returns \<^verbatim>\<open><html><p>Hello, index!</p><b>Home</b></html>\<close>.
\<close>

theorem render_end_to_end:
  "render example_base example_content ''index'' [(''greeting'', ''Hello'')]
     = Inr ''<html><p>Hello, index!</p><b>Home</b></html>''"
  by (simp add: pipeline_defs)

subsection \<open>The completeness check\<close>

text \<open>
  C2. Whenever the text behind the three substitutions still holds a token of the search
  pattern (at some position \<open>n\<close>, with some key \<open>k\<close>), the pipeline ends with the
  \<open>KeyError\<close>, whose message carries the key of a token of that text, and gives no
  page. With the texts of the end-to-end scenario and the empty dictionary, the key in
  the message is \<open>greeting\<close>.
\<close>

theorem completeness_enforcement:
  "(token_at k (drop n (substituted base content filename lang)) \<longrightarrow>
      (\<exists>k' m. render base content filename lang = Inl (KeyError (''no jana cabe '' @ [CHR 0x27] @ k' @ [CHR 0x27] @ ''!'')) \<and>
         token_at k' (drop m (substituted base content filename lang)))) \<and>
   render example_base example_content ''index'' []
     = Inl (KeyError (''no jana cabe '' @ [CHR 0x27] @ ''greeting'' @ [CHR 0x27] @ ''!''))"
proof (intro conjI impI)
  assume "token_at k (drop n (substituted base content filename lang))"
  from search_key_finds [OF this] obtain k' m where
    "search_key (substituted base content filename lang) = Some k'"
    "token_at k' (drop m (substituted base content filename lang))" by blast
  then show "\<exists>k' m. render base content filename lang = Inl (KeyError (''no jana cabe '' @ [CHR 0x27] @ k' @ [CHR 0x27] @ ''!'')) \<and>
      token_at k' (drop m (substituted base content filename lang))"
    by (auto simp: render_def completeness_check_def no_jana_cabe_def)
next
  show "render example_base example_content ''index'' []
     = Inl (KeyError (''no jana cabe '' @ [CHR 0x27] @ ''greeting'' @ [CHR 0x27] @ ''!''))"
    by (simp add: pipeline_defs)
qed

theorem completeness_enforcement_witness:
  "token_at ''greeting'' (drop 9 (substituted example_base example_content ''index'' [])) \<and>
   (\<exists>k' m. render example_base example_content ''index'' [] = Inl (KeyError (''no jana cabe '' @ [CHR 0x27] @ k' @ [CHR 0x27] @ ''!'')) \<and>
      token_at k' (drop m (substituted example_base example_content ''index'' [])))"
proof -
  have h: "token_at ''greeting'' (drop 9 (substituted example_base example_content ''index'' []))"
    by (simp add: token_at_def pipeline_defs)
  from completeness_enforcement [of "''greeting''" 9 example_base example_content "''index''" "[]"] h
  show ?thesis by blast
qed

text \<open>
  C9. When the check fails, the key in the message is the key of the leftmost token:
  if a token with key \<open>k\<close> stands at position \<open>n\<close> of the text and no token stands at
  a position before \<open>n\<close>, the message carries \<open>k\<close>.
\<close>

theorem completeness_check_leftmost:
  assumes "token_at k (drop n page)"
    and "\<forall>m<n. \<forall>k'. \<not> token_at k' (drop m page)"
  shows "completeness_check page = Inl (KeyError (''no jana cabe '' @ [CHR 0x27] @ k @ [CHR 0x27] @ ''!''))"
  using search_key_leftmost [OF assms]
  by (simp add: completeness_check_def no_jana_cabe_def)

theorem completeness_check_leftmost_witness:
  "token_at ''x'' (drop 2 ''{ {x}{y}'') \<and>
   completeness_check ''{ {x}{y}'' = Inl (KeyError (''no jana cabe '' @ [CHR 0x27] @ ''x'' @ [CHR 0x27] @ ''!''))"
proof -
  have h: "token_at ''x'' (drop 2 ''{ {x}{y}'')"
    by (simp add: token_at_def token_def key_char_def in_range_def)
  have "\<forall>k'. \<not> token_at k' (drop m ''{ {x}{y}'')" if "m < 2" for m
  proof -
    from that consider "m = 0" | "m = 1" by linarith
    then show ?thesis
      by cases (simp_all add: no_token_iff match_key_def lit_def key_char_def in_range_def)
  qed
  then have "\<forall>m<2. \<forall>k'. \<not> token_at k' (drop m ''{ {x}{y}'')" by blast
  from completeness_check_leftmost [OF h this] h show ?thesis by blast
qed

text \<open>
  C10. The search pattern does not match where a conditional tag starts, whatever the
  name and the body of the tag: behind \<open>If\<close> comes the double quote, which is neither
  a class character nor the closing brace. So a well-formed text, whose opening braces
  all open tags, passes the completeness check, and the check hands it on unchanged.
\<close>

theorem tags_pass_completeness_check:
  assumes "list_all well_formed ps"
  shows "match_key (flatten_piece (Tag n b) @ t) = None \<and>
    completeness_check (flatten ps) = Inr (flatten ps)"
  using match_key_if_open [of "n @ dquote # b @ ''}'' @ t"] search_key_flatten [OF assms]
  by (simp add: completeness_check_def)

theorem tags_pass_completeness_check_witness:
  "list_all well_formed [Plain ''<p>'', Tag ''index'' ''<b>Home</b>'', Plain ''}'', Tag ''a-b'' ''''] \<and>
   match_key (flatten_piece (Tag ''index'' ''<b>Home</b>'') @ ''{x}'') = None \<and>
   completeness_check (flatten [Plain ''<p>'', Tag ''index'' ''<b>Home</b>'', Plain ''}'', Tag ''a-b'' ''''])
     = Inr (flatten [Plain ''<p>'', Tag ''index'' ''<b>Home</b>'', Plain ''}'', Tag ''a-b'' ''''])"
proof -
  have h: "list_all well_formed
      [Plain ''<p>'', Tag ''index'' ''<b>Home</b>'', Plain ''}'', Tag ''a-b'' '''']"
    by (simp add: dquote_def)
  from tags_pass_completeness_check [OF h, of "''index''" "''<b>Home</b>''" "''{x}''"] h
  show ?thesis by blast
qed

subsection \<open>The substitutions\<close>

text \<open>
  C4, as it is written, fails: the claim is that only the first \<^verbatim>\<open>{Content}\<close> of the
  base is replaced. \<open>str.replace\<close> without a count replaces every occurrence: in the
  base \<^verbatim>\<open>{Content}|{Content}\<close> both are replaced.
\<close>

theorem content_injection_second_occurrence:
  "content_injection ''{Content}|{Content}'' ''x'' = ''x|x'' \<and>
   content_injection ''{Content}|{Content}'' ''x'' \<noteq> ''x|{Content}''"
  by (simp add: content_injection_def)

text \<open>
  C4, amended. Content injection replaces every occurrence of \<^verbatim>\<open>{Content}\<close> in the
  base by the page content, and does not look into the content it puts in: every base
  is a sequence of segments without \<^verbatim>\<open>{Content}\<close>, joined by \<^verbatim>\<open>{Content}\<close>, and
  the result is the same segments joined by the content, whatever the content is.
\<close>

theorem content_injection_every_occurrence:
  "\<exists>segs. base = join ''{Content}'' segs \<and>
     list_all (\<lambda>s. \<not> sublist ''{Content}'' s) segs \<and>
     (\<forall>content. content_injection base content = join content segs)"
  using replace_as_join [of "''{Content}''" base]
  by (auto simp: content_injection_def)

text \<open>
  C6, as it is written, fails: the claim is that, for every working text and page
  name, an entry of the dictionary for the key \<open>.name\<close> cannot take the place of the
  page name put in. The page name can complete a new token with the text around it:
  with the page name \<open>a\<close>, the text \<^verbatim>\<open>{.n{.name}me}\<close> becomes \<^verbatim>\<open>{.name}\<close>, which
  an entry for \<open>.name\<close> then replaces; without the entry the page is refused.
\<close>

theorem name_entry_overrides:
  "name_substitution ''a'' ''{.n{.name}me}'' = ''{.name}'' \<and>
   render ''{Content}'' ''{.n{.name}me}'' ''a'' [(''.name'', ''Z'')] = Inr ''Z'' \<and>
   render ''{Content}'' ''{.n{.name}me}'' ''a'' []
     = Inl (KeyError (''no jana cabe '' @ [CHR 0x27] @ ''.name'' @ [CHR 0x27] @ ''!''))"
  by (simp add: pipeline_defs)

text \<open>
  C6, amended. Name substitution replaces every occurrence of \<^verbatim>\<open>{.name}\<close> in the
  working text by the page name, whatever the dictionary is: every working text is a
  sequence of segments without \<^verbatim>\<open>{.name}\<close>, joined by \<^verbatim>\<open>{.name}\<close>, and the result
  is the same segments joined by the page name. An entry of the dictionary for the key
  \<open>.name\<close> changes nothing in the rendered page, unless the text that reaches the pass
  of that entry (the text behind the name substitution and the passes of the entries
  before it) holds the token \<^verbatim>\<open>{.name}\<close> again.
\<close>

theorem name_substitution_every_occurrence:
  "(\<exists>segs. page = join ''{.name}'' segs \<and>
      list_all (\<lambda>s. \<not> sublist ''{.name}'' s) segs \<and>
      (\<forall>filename. name_substitution filename page = join filename segs)) \<and>
   (\<not> sublist ''{.name}''
        (key_substitution lang1 (name_substitution filename (content_injection base content))) \<longrightarrow>
      render base content filename (lang1 @ (''.name'', v) # lang2)
        = render base content filename (lang1 @ lang2))"
proof (intro conjI impI)
  show "\<exists>segs. page = join ''{.name}'' segs \<and>
      list_all (\<lambda>s. \<not> sublist ''{.name}'' s) segs \<and>
      (\<forall>filename. name_substitution filename page = join filename segs)"
    using replace_as_join [of "''{.name}''" page]
    by (auto simp: name_substitution_def)
next
  let ?t = "key_substitution lang1 (name_substitution filename (content_injection base content))"
  assume "\<not> sublist ''{.name}'' ?t"
  then have "replace ''{.name}'' v ?t = ?t" by (intro replace_absent) simp_all
  then have "substituted base content filename (lang1 @ (''.name'', v) # lang2)
      = substituted base content filename (lang1 @ lang2)"
    by (simp add: substituted_def key_substitution_append token_def)
  then show "render base content filename (lang1 @ (''.name'', v) # lang2)
      = render base content filename (lang1 @ lang2)"
    by (simp add: render_def)
qed

theorem name_substitution_every_occurrence_witness:
  "\<not> sublist ''{.name}''
      (key_substitution [(''hi'', ''Hello'')]
        (name_substitution ''index'' (content_injection ''<h1>{Content}!'' ''{hi} {.name}''))) \<and>
   render ''<h1>{Content}!'' ''{hi} {.name}'' ''index'' [(''hi'', ''Hello''), (''.name'', ''Z'')]
     = Inr ''<h1>Hello index!'' \<and>
   render ''<h1>{Content}!'' ''{hi} {.name}'' ''index'' [(''hi'', ''Hello'')]
     = Inr ''<h1>Hello index!''"
proof -
  have h: "\<not> sublist ''{.name}''
      (key_substitution [(''hi'', ''Hello'')]
        (name_substitution ''index'' (content_injection ''<h1>{Content}!'' ''{hi} {.name}'')))"
    by (simp add: content_injection_def name_substitution_def token_def sublist_Cons_right)
  have e: "render ''<h1>{Content}!'' ''{hi} {.name}'' ''index'' [(''hi'', ''Hello'')]
      = Inr ''<h1>Hello index!''"
    by (simp add: pipeline_defs)
  from name_substitution_every_occurrence
    [of _ "[(''hi'', ''Hello'')]" "''index''" "''<h1>{Content}!''" "''{hi} {.name}''" "''Z''" "[]"]
    h e
  show ?thesis by simp
qed

text \<open>
  C5, as it is written, fails: the claim is that a token \<^verbatim>\<open>{otherKey}\<close> inside a
  value is never replaced. The loop runs one \<open>replace\<close> for each pair, each on the
  result of the one before, so a value put in for one key is scanned for the keys that
  come later: with \<open>a\<close> mapped to \<^verbatim>\<open>{b}\<close> and then \<open>b\<close> mapped to \<open>X\<close>, the text
  \<^verbatim>\<open>{a}\<close> becomes \<open>X\<close>.
\<close>

theorem key_substitution_later_key:
  "key_substitution [(''a'', ''{b}''), (''b'', ''X'')] ''{a}'' = ''X'' \<and>
   key_substitution [(''a'', ''{b}''), (''b'', ''X'')] ''{a}'' \<noteq> ''{b}''"
  by (simp add: token_def)

text \<open>
  C5, amended. Key substitution runs one replacement pass for each pair, in the order of
  the dictionary, each on the result of the pass before. A pass does not scan again the
  values it puts in, so the values of the last pair stand in the result as they are,
  whatever they contain: the text that the passes of the earlier pairs leave is a
  sequence of segments without the token of the last key, joined by that token, and the
  result is the same segments joined by the last value. (A value of an earlier pair is
  scanned by the later passes.)
\<close>

theorem key_substitution_last_pass:
  "\<exists>segs. key_substitution lang page = join (token key) segs \<and>
     list_all (\<lambda>s. \<not> sublist (token key) s) segs \<and>
     (\<forall>val. key_substitution (lang @ [(key, val)]) page = join val segs)"
proof -
  have "token key \<noteq> []" by (simp add: token_def)
  from replace_as_join [OF this, of "key_substitution lang page"]
  show ?thesis by (auto simp: key_substitution_snoc)
qed

subsection \<open>The conditional tags\<close>

text \<open>
  C3. The claim is that a tag is kept exactly when its name equals the page name. The
  script puts the page name into the pattern of the keep pass unescaped, so a dot in the
  page name stands for any character: for the page \<open>a.b\<close> the tag named \<open>axb\<close> is kept,
  although the names differ and the claim has it removed. The script at that input:
\<close>

theorem keep_pass_wildcard_name:
  \<open>conditional_resolution ''a.b'' ''{If"axb"Secret}'' = Some ''Secret'' \<and>
   flatten [Tag ''axb'' ''Secret''] = ''{If"axb"Secret}'' \<and>
   resolved ''a.b'' [Tag ''axb'' ''Secret''] = []\<close>
  by (simp add: pipeline_defs flatten_def resolved_def)

text \<open>
  C7, as it is written, fails: the claim is that one application leaves no tag, for every
  text. The strip pass removes \<^verbatim>\<open>{If"a"b}\<close> from \<^verbatim>\<open>{If{If"a"b}"x"y}\<close>, and what
  is left is the tag \<^verbatim>\<open>{If"x"y}\<close>, which a second application removes.
\<close>

theorem resolution_not_idempotent:
  \<open>conditional_resolution ''home'' ''{If{If"a"b}"x"y}'' = Some ''{If"x"y}'' \<and>
   conditional_resolution ''home'' ''{If"x"y}'' = Some []\<close>
  by (simp add: pipeline_defs)

text \<open>
  C7, amended. For every text in which each opening brace starts \<^verbatim>\<open>{If"\<close>, and every
  page name that has a pattern in the model (no special character but the dot),
  conditional resolution applied to its own result gives that result again, and the
  pattern of the strip pass matches at no position of the result: no tag is left.
\<close>

theorem resolution_idempotent:
  assumes "opens_tags page" and "compile_name filename \<noteq> None"
  shows "\<exists>r. conditional_resolution filename page = Some r \<and>
    conditional_resolution filename r = Some r \<and>
    (\<forall>n. match_strip (drop n r) = None)"
proof -
  from assms(2) obtain p where p: "compile_name filename = Some p" by blast
  define r where "r = strip_pass (keep_pass p page)"
  have "opens_tags (keep_pass p page)" using assms(1) by (rule keep_pass_opens_tags)
  from strip_pass_fixed [OF this, of p]
  have f: "strip_pass r = r" "keep_pass p r = r" by (simp_all add: r_def)
  have "conditional_resolution filename page = Some r"
    by (simp add: conditional_resolution_def p r_def)
  moreover have "conditional_resolution filename r = Some r"
    by (simp add: conditional_resolution_def p f)
  moreover have "\<forall>n. match_strip (drop n r) = None"
    using fixed_no_match [OF f(1)] by blast
  ultimately show ?thesis by blast
qed

theorem resolution_idempotent_witness:
  \<open>opens_tags ''<p>{If"a.b"x{If"axb"y}z}'' \<and> compile_name ''a.b'' \<noteq> None \<and>
   conditional_resolution ''a.b'' ''<p>{If"a.b"x{If"axb"y}z}'' = Some ''<p>x'' \<and>
   conditional_resolution ''a.b'' ''<p>x'' = Some ''<p>x'' \<and>
   (\<forall>n. match_strip (drop n ''<p>x'') = None)\<close>
proof -
  have h1: \<open>opens_tags ''<p>{If"a.b"x{If"axb"y}z}''\<close>
    by (simp add: if_open_def dquote_def)
  have h2: "compile_name ''a.b'' \<noteq> None"
    by (simp add: compile_name_def special_chars_def)
  have e: \<open>conditional_resolution ''a.b'' ''<p>{If"a.b"x{If"axb"y}z}'' = Some ''<p>x''\<close>
    by (simp add: pipeline_defs)
  from resolution_idempotent [OF h1 h2] e h1 h2 show ?thesis by auto
qed

end
